theory Spec2Isabelle
  imports Main
begin

section \<open>Python strings\<close>

text \<open>
  A Python \<^verbatim>\<open>str\<close> is a sequence of Unicode code points; it is modelled as a list of
  natural numbers, one per code point. Program constants that are plain ASCII are written
  as HOL string literals and converted with \<open>str\<close>. Style names and Unicode category
  codes, which are ASCII identifiers of the libraries, stay HOL strings.
\<close>

type_synonym pystr = "nat list"

definition str :: "string \<Rightarrow> pystr" where
  "str s = map of_char s"

text \<open>\<^verbatim>\<open>s.startswith(p)\<close>\<close>

fun startswith :: "'a list \<Rightarrow> 'a list \<Rightarrow> bool" where
  "startswith s [] = True"
| "startswith [] (p # ps) = False"
| "startswith (c # cs) (p # ps) = (c = p \<and> startswith cs ps)"

text \<open>
  \<^verbatim>\<open>s.replace(old, new)\<close>: the occurrences of \<open>old\<close> are found from the left and do not
  overlap. With an empty \<open>old\<close> Python puts \<open>new\<close> before every character and at the end.
\<close>

fun replace :: "pystr \<Rightarrow> pystr \<Rightarrow> pystr \<Rightarrow> pystr" where
  "replace s [] new = new @ concat (map (\<lambda>c. c # new) s)"
| "replace [] (b # bs) new = []"
| "replace (c # cs) (b # bs) new =
     (if startswith (c # cs) (b # bs)
      then new @ replace (drop (length (b # bs)) (c # cs)) (b # bs) new
      else c # replace cs (b # bs) new)"

text \<open>
  \<^verbatim>\<open>str.isspace\<close> of one character: the white space of Unicode as CPython tabulates it
  (\<^verbatim>\<open>_PyUnicode_IsWhitespace\<close>).
\<close>

definition isspace :: "nat \<Rightarrow> bool" where
  "isspace c = ((0x09 \<le> c \<and> c \<le> 0x0D) \<or> (0x1C \<le> c \<and> c \<le> 0x20) \<or> c = 0x85 \<or> c = 0xA0
     \<or> c = 0x1680 \<or> (0x2000 \<le> c \<and> c \<le> 0x200A) \<or> c = 0x2028 \<or> c = 0x2029
     \<or> c = 0x202F \<or> c = 0x205F \<or> c = 0x3000)"

text \<open>\<^verbatim>\<open>s.lstrip()\<close>, \<^verbatim>\<open>s.rstrip()\<close>, \<^verbatim>\<open>s.strip()\<close> and \<^verbatim>\<open>s.strip(chars)\<close>\<close>

definition lstrip :: "pystr \<Rightarrow> pystr" where
  "lstrip s = dropWhile isspace s"

definition rstrip :: "pystr \<Rightarrow> pystr" where
  "rstrip s = rev (dropWhile isspace (rev s))"

definition strip :: "pystr \<Rightarrow> pystr" where
  "strip s = rstrip (lstrip s)"

definition strip_chars :: "pystr \<Rightarrow> pystr \<Rightarrow> pystr" where
  "strip_chars s chars =
     rev (dropWhile (\<lambda>c. c \<in> set chars) (rev (dropWhile (\<lambda>c. c \<in> set chars) s)))"

text \<open>
  \<^verbatim>\<open>s.splitlines()\<close>: a line ends at \<^verbatim>\<open>\n\<close>, \<^verbatim>\<open>\r\<close>, \<^verbatim>\<open>\r\n\<close>, \<^verbatim>\<open>\v\<close>, \<^verbatim>\<open>\f\<close>,
  \<^verbatim>\<open>\x1c\<close>, \<^verbatim>\<open>\x1d\<close>, \<^verbatim>\<open>\x1e\<close>, \<^verbatim>\<open>\x85\<close>, U+2028 or U+2029; the line ends are
  dropped, and no empty last line is produced for a text that ends with one.
  The first argument of \<open>splitlines_from\<close> is the line read so far.
\<close>

definition is_linebreak :: "nat \<Rightarrow> bool" where
  "is_linebreak c = ((0x0A \<le> c \<and> c \<le> 0x0D) \<or> (0x1C \<le> c \<and> c \<le> 0x1E) \<or> c = 0x85
     \<or> c = 0x2028 \<or> c = 0x2029)"

fun splitlines_from :: "pystr \<Rightarrow> pystr \<Rightarrow> pystr list" where
  "splitlines_from cur [] = (if cur = [] then [] else [cur])"
| "splitlines_from cur (c # cs) =
     (if c = 0x0D \<and> cs \<noteq> [] \<and> hd cs = 0x0A then cur # splitlines_from [] (tl cs)
      else if is_linebreak c then cur # splitlines_from [] cs
      else splitlines_from (cur @ [c]) cs)"

definition splitlines :: "pystr \<Rightarrow> pystr list" where
  "splitlines s = splitlines_from [] s"

text \<open>\<^verbatim>\<open>s.split(sep)\<close> for a separator of one character; the result is never empty.\<close>

fun split_from :: "pystr \<Rightarrow> nat \<Rightarrow> pystr \<Rightarrow> pystr list" where
  "split_from cur sep [] = [cur]"
| "split_from cur sep (c # cs) =
     (if c = sep then cur # split_from [] sep cs else split_from (cur @ [c]) sep cs)"

definition split :: "pystr \<Rightarrow> nat \<Rightarrow> pystr list" where
  "split s sep = split_from [] sep s"

text \<open>\<^verbatim>\<open>sep.join(xs)\<close>\<close>

fun join :: "pystr \<Rightarrow> pystr list \<Rightarrow> pystr" where
  "join sep [] = []"
| "join sep [x] = x"
| "join sep (x # y # ys) = x @ sep @ join sep (y # ys)"

text \<open>
  \<^verbatim>\<open>html.escape(s)\<close> with its default \<^verbatim>\<open>quote=True\<close>: five replacements, the ampersand
  first. Code point 34 is the double quote and 39 the apostrophe.
\<close>

definition html_escape :: "pystr \<Rightarrow> pystr" where
  "html_escape s =
     (let s = replace s (str ''&'') (str ''&amp;'');
          s = replace s (str ''<'') (str ''&lt;'');
          s = replace s (str ''>'') (str ''&gt;'');
          s = replace s [34] (str ''&quot;'');
          s = replace s [39] (str ''&#x27;'')
      in s)"

section \<open>Regular expressions of the formatter\<close>

text \<open>
  Both patterns of \<^verbatim>\<open>_fmt_inline\<close> have the shape \<^verbatim>\<open>D(.+?)D\<close> for a literal delimiter
  \<open>D\<close> (\<^verbatim>\<open>\*\*\<close> or \<^verbatim>\<open>\*\<close>). The dot matches every character but the newline (code
  point 10), and the group is lazy: after the opening delimiter and one character, the
  matcher closes the group at the first place where the delimiter follows.

  \<open>scan_close d s\<close> reads \<open>s\<close>, the text after the first character of the group, and
  returns the rest of the group with the text after the closing delimiter.
  \<open>match_at d s\<close> matches the whole pattern at the head of \<open>s\<close> and returns the group
  with the text after the match.
\<close>

fun scan_close :: "pystr \<Rightarrow> pystr \<Rightarrow> (pystr \<times> pystr) option" where
  "scan_close d [] = None"
| "scan_close d (c # cs) =
     (if startswith (c # cs) d then Some ([], drop (length d) (c # cs))
      else if c = 10 then None
      else (case scan_close d cs of
              None \<Rightarrow> None
            | Some (x, r) \<Rightarrow> Some (c # x, r)))"

definition match_at :: "pystr \<Rightarrow> pystr \<Rightarrow> (pystr \<times> pystr) option" where
  "match_at d s =
     (if startswith s d then
        (case drop (length d) s of
           [] \<Rightarrow> None
         | c # cs \<Rightarrow>
             if c = 10 then None
             else (case scan_close d cs of
                     None \<Rightarrow> None
                   | Some (x, r) \<Rightarrow> Some (c # x, r)))
      else None)"

text \<open>
  The replacement template of \<^verbatim>\<open>re.sub\<close>, expanded for a match whose group 1 is \<open>g\<close>.
  Code point 92 is the backslash and 49 the digit one. In a template a backslash
  followed by a backslash stands for one backslash, a backslash followed by the digit
  one for group 1, and every other character for itself (the other escapes of the
  template language do not occur in the templates of this program).
\<close>

fun expand_template :: "pystr \<Rightarrow> pystr \<Rightarrow> pystr" where
  "expand_template [] g = []"
| "expand_template [c] g = [c]"
| "expand_template (c # e # cs) g =
     (if c = 92 \<and> e = 92 then 92 # expand_template cs g
      else if c = 92 \<and> e = 49 then g @ expand_template cs g
      else c # expand_template (e # cs) g)"

lemma scan_close_length:
  "scan_close d s = Some (x, r) \<Longrightarrow> length r \<le> length s"
proof (induction s arbitrary: x r)
  case Nil
  then show ?case by simp
next
  case (Cons c cs)
  then show ?case
    by (auto split: if_splits option.splits)
qed

lemma match_at_length:
  assumes "match_at d s = Some (x, r)"
  shows "length r < length s"
proof -
  from assms obtain c cs x' where dr: "drop (length d) s = c # cs"
    and sc: "scan_close d cs = Some (x', r)"
    by (auto simp: match_at_def split: if_splits list.splits option.splits)
  from sc have "length r \<le> length cs" by (rule scan_close_length)
  moreover from dr have "length cs < length s"
    by (metis diff_le_self le_imp_less_Suc length_Cons length_drop not_less)
  ultimately show ?thesis by simp
qed

text \<open>
  \<^verbatim>\<open>re.sub(pattern, template, t)\<close> for the pattern \<^verbatim>\<open>D(.+?)D\<close>: the text is read from
  the left; where the pattern matches, the expanded template is written and reading
  goes on after the match, elsewhere the character is copied.
\<close>

function re_sub :: "pystr \<Rightarrow> pystr \<Rightarrow> pystr \<Rightarrow> pystr" where
  "re_sub d tpl [] = []"
| "re_sub d tpl (c # cs) =
     (case match_at d (c # cs) of
        Some (x, r) \<Rightarrow> expand_template tpl x @ re_sub d tpl r
      | None \<Rightarrow> c # re_sub d tpl cs)"
  by pat_completeness auto
termination
proof (relation "measure (\<lambda>(d, tpl, s). length s)")
  show "wf (measure (\<lambda>(d, tpl, s). length s))" by simp
next
  fix d tpl :: pystr and c cs x2 x r
  assume "match_at d (c # cs) = Some x2" and "(x, r) = x2"
  then have "match_at d (c # cs) = Some (x, r)" by simp
  then have "length r < length (c # cs)" by (rule match_at_length)
  then show "((d, tpl, r), (d, tpl, c # cs)) \<in> measure (\<lambda>(d, tpl, s). length s)" by simp
next
  fix d tpl :: pystr and c cs
  show "((d, tpl, cs), (d, tpl, c # cs)) \<in> measure (\<lambda>(d, tpl, s). length s)" by simp
qed

section \<open>The sanitizer\<close>

text \<open>
  \<^verbatim>\<open>_sanitize\<close>. The table \<^verbatim>\<open>repl\<close> is read in the order it is written. The Unicode
  database is not part of the program: \<^verbatim>\<open>unicodedata.category\<close> is the parameter \<open>cat\<close>,
  from a code point to its two-letter general category.
\<close>

definition repl :: "(pystr \<times> pystr) list" where
  "repl = [([0x2013], str ''-''), ([0x2014], str ''-''),
           ([0x00A0], str '' ''), ([0x202F], str '' ''),
           ([0x00AD], str ''-''), ([0x2060], [])]"

definition sanitize :: "(nat \<Rightarrow> string) \<Rightarrow> pystr \<Rightarrow> pystr" where
  "sanitize cat txt =
     (let txt = foldl (\<lambda>t (bad, good). replace t bad good) txt repl;
          txt = filter (\<lambda>ch. \<not> startswith (cat ch) ''C'' \<or> ch \<in> {0x0A, 0x09}) txt
      in replace (replace (replace txt (str ''&nbsp;'') (str '' ''))
                   (str ''&quot;'') [34])
           (str ''&amp;'') (str ''&''))"

text \<open>
  The general category of the ASCII code points, as the Unicode database gives it
  (these entries are the same in every version of the database). It instantiates \<open>cat\<close>
  where a text of ASCII characters is evaluated; no other code point is looked up there.
\<close>

definition category_ascii :: "nat \<Rightarrow> string" where
  "category_ascii c =
     (if c < 32 \<or> c = 127 then ''Cc''
      else if c = 32 then ''Zs''
      else if 48 \<le> c \<and> c \<le> 57 then ''Nd''
      else if 65 \<le> c \<and> c \<le> 90 then ''Lu''
      else if 97 \<le> c \<and> c \<le> 122 then ''Ll''
      else if c = 36 then ''Sc''
      else if c \<in> {40, 91, 123} then ''Ps''
      else if c \<in> {41, 93, 125} then ''Pe''
      else if c \<in> {43, 60, 61, 62, 124, 126} then ''Sm''
      else if c = 45 then ''Pd''
      else if c \<in> {94, 96} then ''Sk''
      else if c = 95 then ''Pc''
      else if c < 128 then ''Po''
      else ''Cn'')"

section \<open>Inline markdown\<close>

text \<open>
  \<^verbatim>\<open>_fmt_inline\<close>. The two templates are the raw strings of the source, character for
  character: \<^verbatim>\<open><b>\\1</b>\<close> and \<^verbatim>\<open><i>\\1</i>\<close>, each with two backslashes before the
  digit.
\<close>

definition bold_template :: pystr where
  "bold_template = str ''<b>'' @ [92, 92, 49] @ str ''</b>''"

definition italic_template :: pystr where
  "italic_template = str ''<i>'' @ [92, 92, 49] @ str ''</i>''"

definition fmt_inline :: "pystr \<Rightarrow> pystr" where
  "fmt_inline t =
     (let t = html_escape t;
          t = re_sub (str ''**'') bold_template t;
          t = re_sub (str ''*'') italic_template t
      in t)"

section \<open>Flowables and the style sheet\<close>

text \<open>
  The flowables of the rendering library are data here: a \<^verbatim>\<open>Paragraph\<close> of a markup text
  and a style, a \<^verbatim>\<open>Spacer\<close> (always \<^verbatim>\<open>Spacer(1, 0.15 * inch)\<close>), and a \<^verbatim>\<open>Table\<close> of rows of
  cells (always built by \<^verbatim>\<open>_table\<close>, with the same alignment and table style). A style is
  represented by the name it is registered under. What the library does with a flowable
  it is given (parsing the markup of a paragraph, laying out a table) is outside the
  program; the one exception of a constructor that is part of the model is the
  \<^verbatim>\<open>ValueError\<close> of a table without cells.
\<close>

datatype flowable =
    Paragraph pystr string
  | Spacer
  | Table "flowable list list"

datatype error = KeyError string | ValueError

text \<open>
  A style sheet is the list of the names registered in it. \<^verbatim>\<open>STYLES\<close> starts as the
  sample sheet of the library, the parameter \<open>sample\<close>; the loop at the top of the module
  adds each name of \<^verbatim>\<open>_BASE\<close> that the sheet does not hold yet (the attributes of the
  styles are layout only and left out). \<^verbatim>\<open>STYLES[name]\<close> raises \<^verbatim>\<open>KeyError\<close> for a name that
  is not registered.
\<close>

type_synonym stylesheet = "string list"

definition BASE :: "string list" where
  "BASE = [''H1'', ''H2'', ''H3'', ''Body'', ''Code'']"

definition STYLES :: "stylesheet \<Rightarrow> stylesheet" where
  "STYLES sample = foldl (\<lambda>S name. if name \<notin> set S then S @ [name] else S) sample BASE"

definition getitem :: "stylesheet \<Rightarrow> string \<Rightarrow> error + string" where
  "getitem S name = (if name \<in> set S then Inr name else Inl (KeyError name))"

text \<open>Sequencing of computations that may raise.\<close>

definition err_bind :: "error + 'a \<Rightarrow> ('a \<Rightarrow> error + 'b) \<Rightarrow> error + 'b" where
  "err_bind m f = (case m of Inl e \<Rightarrow> Inl e | Inr x \<Rightarrow> f x)"

fun err_map :: "('a \<Rightarrow> error + 'b) \<Rightarrow> 'a list \<Rightarrow> error + 'b list" where
  "err_map f [] = Inr []"
| "err_map f (x # xs) =
     err_bind (f x) (\<lambda>y. err_bind (err_map f xs) (\<lambda>ys. Inr (y # ys)))"

text \<open>\<^verbatim>\<open>Paragraph(text, STYLES[name])\<close>\<close>

definition new_paragraph :: "stylesheet \<Rightarrow> pystr \<Rightarrow> string \<Rightarrow> error + flowable" where
  "new_paragraph S txt name = err_bind (getitem S name) (\<lambda>style. Inr (Paragraph txt style))"

text \<open>
  \<^verbatim>\<open>Table(para_rows, hAlign="LEFT")\<close>: the constructor of the library raises \<^verbatim>\<open>ValueError\<close>
  for a table without a row or without a column, that is when there is no row or every
  row is empty.
\<close>

definition new_table :: "flowable list list \<Rightarrow> error + flowable" where
  "new_table para_rows =
     (if para_rows = [] \<or> list_all (\<lambda>row. row = []) para_rows then Inl ValueError
      else Inr (Table para_rows))"

text \<open>
  \<^verbatim>\<open>_table\<close>: every cell becomes a paragraph of the style \<^verbatim>\<open>Body\<close>, and the table is built
  of these rows.
\<close>

definition table :: "stylesheet \<Rightarrow> pystr list list \<Rightarrow> error + flowable" where
  "table S rows =
     err_bind (err_map (err_map (\<lambda>cell. new_paragraph S cell ''Body'')) rows)
       (\<lambda>para_rows. new_table para_rows)"

section \<open>Markdown to flowables\<close>

text \<open>
  The local variables of \<^verbatim>\<open>markdown_to_flowables\<close>, which its two inner functions and its
  loop update.
\<close>

record state =
  flow :: "flowable list"
  code_buf :: "pystr list"
  table_buf :: "pystr list list"
  in_code :: bool

definition init :: state where
  "init = \<lparr>flow = [], code_buf = [], table_buf = [], in_code = False\<rparr>"

text \<open>
  The markup of a code paragraph: the buffered lines joined by newlines and escaped,
  every space made a non-breaking one and every newline a line break.
\<close>

definition code_markup :: "pystr list \<Rightarrow> pystr" where
  "code_markup buf =
     replace (replace (html_escape (join [10] buf)) (str '' '') (str ''&nbsp;''))
       [10] (str ''<br/>'')"

definition flush_code :: "stylesheet \<Rightarrow> state \<Rightarrow> error + state" where
  "flush_code S st =
     (if code_buf st \<noteq> [] then
        err_bind (new_paragraph S (code_markup (code_buf st)) ''Code'')
          (\<lambda>p. Inr (st\<lparr>flow := flow st @ [p], code_buf := []\<rparr>))
      else Inr st)"

definition flush_table :: "stylesheet \<Rightarrow> state \<Rightarrow> error + state" where
  "flush_table S st =
     (if table_buf st \<noteq> [] then
        err_bind (table S (table_buf st))
          (\<lambda>t. Inr (st\<lparr>flow := flow st @ [t, Spacer], table_buf := []\<rparr>))
      else Inr st)"

text \<open>\<^verbatim>\<open>flow.append(Paragraph(text, STYLES[name]))\<close>\<close>

definition append_paragraph :: "stylesheet \<Rightarrow> state \<Rightarrow> pystr \<Rightarrow> string \<Rightarrow> error + state" where
  "append_paragraph S st txt name =
     err_bind (new_paragraph S txt name) (\<lambda>p. Inr (st\<lparr>flow := flow st @ [p]\<rparr>))"

text \<open>\<^verbatim>\<open>re.fullmatch(r"-+", s)\<close> as a truth value: one or more hyphens and nothing else.\<close>

definition fullmatch_hyphens :: "pystr \<Rightarrow> bool" where
  "fullmatch_hyphens s = (s \<noteq> [] \<and> list_all (\<lambda>c. c = 45) s)"

text \<open>The cells of a table line (code point 124 is the pipe).\<close>

definition row_cells :: "pystr \<Rightarrow> pystr list" where
  "row_cells line = map strip (split (strip_chars (strip line) (str ''|'')) 124)"

text \<open>
  The body of the loop for one raw line. Code point 8226 is the bullet that starts a list
  item.
\<close>

definition step :: "stylesheet \<Rightarrow> (nat \<Rightarrow> string) \<Rightarrow> state \<Rightarrow> pystr \<Rightarrow> error + state" where
  "step S cat st raw =
     (let line = sanitize cat raw in
      if startswith (strip line) (str ''```'') then
        (let st = st\<lparr>in_code := \<not> in_code st\<rparr> in
         if \<not> in_code st then flush_code S st else Inr st)
      else if in_code st then Inr (st\<lparr>code_buf := code_buf st @ [line]\<rparr>)
      else if 124 \<in> set line \<and> \<not> startswith (lstrip line) (str ''#'') then
        (let cells = row_cells line in
         if list_all (\<lambda>c. fullmatch_hyphens (replace c (str '' '') [])) cells then Inr st
         else Inr (st\<lparr>table_buf := table_buf st @ [map fmt_inline cells]\<rparr>))
      else
        err_bind (flush_table S st) (\<lambda>st.
          if startswith line (str ''# '') then
            append_paragraph S st (fmt_inline (drop 2 line)) ''H1''
          else if startswith line (str ''## '') then
            append_paragraph S st (fmt_inline (drop 3 line)) ''H2''
          else if startswith line (str ''### '') then
            append_paragraph S st (fmt_inline (drop 4 line)) ''H3''
          else if startswith line (str ''- '') \<or> startswith line (str ''* '') then
            append_paragraph S st ([8226, 32] @ fmt_inline (drop 2 line)) ''Body''
          else if strip line = [] then Inr (st\<lparr>flow := flow st @ [Spacer]\<rparr>)
          else append_paragraph S st (fmt_inline line) ''Body''))"

text \<open>The loop, which stops at the first exception.\<close>

fun run :: "stylesheet \<Rightarrow> (nat \<Rightarrow> string) \<Rightarrow> state \<Rightarrow> pystr list \<Rightarrow> error + state" where
  "run S cat st [] = Inr st"
| "run S cat st (raw # raws) = err_bind (step S cat st raw) (\<lambda>st. run S cat st raws)"

definition markdown_to_flowables ::
  "stylesheet \<Rightarrow> (nat \<Rightarrow> string) \<Rightarrow> pystr \<Rightarrow> error + flowable list" where
  "markdown_to_flowables S cat md =
     err_bind (run S cat init (splitlines (strip md) @ [[]])) (\<lambda>st.
     err_bind (flush_table S st) (\<lambda>st.
     err_bind (flush_code S st) (\<lambda>st.
     Inr (flow st))))"

section \<open>The vocabulary of the properties\<close>

text \<open>The table buffer is filled when every row buffered in it has a cell.\<close>

definition rows_filled :: "state \<Rightarrow> bool" where
  "rows_filled st = list_all (\<lambda>row. row \<noteq> []) (table_buf st)"

text \<open>
  A list of blocks has its tables spaced when every table in it is directly followed by
  a spacer.
\<close>

fun is_table :: "flowable \<Rightarrow> bool" where
  "is_table (Table rows) = True"
| "is_table (Paragraph txt style) = False"
| "is_table Spacer = False"

definition tables_spaced :: "flowable list \<Rightarrow> bool" where
  "tables_spaced bs =
     (\<forall>i < length bs. is_table (bs ! i) \<longrightarrow> Suc i < length bs \<and> bs ! Suc i = Spacer)"

text \<open>
  The example of the module's documentation: a heading, the header row of a table, the
  separator row, and one data row, with a newline (code point 10) between the lines.
\<close>

definition demo :: pystr where
  "demo = str ''### Demo'' @ [10] @ str ''| **Bold** | *Italic* |'' @ [10]
          @ str ''|----------|----------|'' @ [10] @ str ''| cell A   | cell B   |''"

text \<open>
  A fence line is a line whose sanitized and stripped text starts with three backticks;
  a code block is a paragraph of the style \<^verbatim>\<open>Code\<close>. The scanner is outside code when
  it is in no fence, its code buffer is empty and it has appended no code block.
\<close>

definition is_fence :: "(nat \<Rightarrow> string) \<Rightarrow> pystr \<Rightarrow> bool" where
  "is_fence cat raw = startswith (strip (sanitize cat raw)) (str ''```'')"

fun is_code_block :: "flowable \<Rightarrow> bool" where
  "is_code_block (Paragraph txt style) = (style = ''Code'')"
| "is_code_block Spacer = False"
| "is_code_block (Table rows) = False"

definition outside_code :: "state \<Rightarrow> bool" where
  "outside_code st =
     (\<not> in_code st \<and> code_buf st = [] \<and> (\<forall>b \<in> set (flow st). \<not> is_code_block b))"



text \<open>
  The reading of the specification, in its words: of the stripped line exactly one
  leading pipe and exactly one trailing pipe are removed, if present, before the line is
  split at the pipes and every cell is trimmed.
\<close>

definition strip_one_pipe :: "pystr \<Rightarrow> pystr" where
  "strip_one_pipe s =
     (let s = (if s \<noteq> [] \<and> hd s = 124 then tl s else s)
      in if s \<noteq> [] \<and> last s = 124 then butlast s else s)"

definition cells_one_pipe :: "pystr \<Rightarrow> pystr list" where
  "cells_one_pipe line = map strip (split (strip_one_pipe (strip line)) 124)"

text \<open>\<^verbatim>\<open>old in s\<close>: the text \<open>old\<close> occurs in \<open>s\<close>.\<close>

fun contains :: "pystr \<Rightarrow> pystr \<Rightarrow> bool" where
  "contains [] old = (old = [])"
| "contains (c # cs) old = (startswith (c # cs) old \<or> contains cs old)"

text \<open>
  The three passes of \<^verbatim>\<open>_sanitize\<close> by name: the replacements of the table \<^verbatim>\<open>repl\<close>, the
  test of the filter, and the decoding of the three entities. \<open>glyphs\<close> are the code
  points the table replaces, and \<open>has_entity\<close> says that one of the three entities occurs.
\<close>

definition replace_glyphs :: "pystr \<Rightarrow> pystr" where
  "replace_glyphs txt = foldl (\<lambda>t (bad, good). replace t bad good) txt repl"

definition keep :: "(nat \<Rightarrow> string) \<Rightarrow> nat \<Rightarrow> bool" where
  "keep cat ch = (\<not> startswith (cat ch) ''C'' \<or> ch \<in> {0x0A, 0x09})"

definition decode_entities :: "pystr \<Rightarrow> pystr" where
  "decode_entities txt =
     replace (replace (replace txt (str ''&nbsp;'') (str '' '')) (str ''&quot;'') [34])
       (str ''&amp;'') (str ''&'')"

definition has_entity :: "pystr \<Rightarrow> bool" where
  "has_entity txt =
     (contains txt (str ''&nbsp;'') \<or> contains txt (str ''&quot;'')
      \<or> contains txt (str ''&amp;''))"

definition glyphs :: "nat set" where
  "glyphs = {0x2013, 0x2014, 0x00A0, 0x202F, 0x00AD, 0x2060}"

section \<open>Style lookups never fail\<close>

lemma err_bind_Inr [simp]: "err_bind (Inr x) f = f x"
  by (simp add: err_bind_def)

lemma err_bind_Inl [simp]: "err_bind (Inl e) f = Inl e"
  by (simp add: err_bind_def)

lemma BASE_in_STYLES: "set BASE \<subseteq> set (STYLES sample)"
  by (auto simp: STYLES_def BASE_def)

lemma getitem_STYLES:
  "name \<in> set BASE \<Longrightarrow> getitem (STYLES sample) name = Inr name"
  using BASE_in_STYLES [of sample] by (auto simp: getitem_def)

lemma new_paragraph_STYLES:
  "name \<in> set BASE \<Longrightarrow>
   new_paragraph (STYLES sample) txt name = Inr (Paragraph txt name)"
  by (simp add: new_paragraph_def getitem_STYLES)

lemma err_map_Inr_app: "err_map (\<lambda>x. Inr (f x)) xs = Inr (map f xs)"
  by (induction xs) simp_all

lemma err_map_Inr: "err_map (\<lambda>x. Inr (f x)) = (\<lambda>xs. Inr (map f xs))"
  by (rule ext) (rule err_map_Inr_app)

lemma table_STYLES:
  "table (STYLES sample) rows =
     (if rows = [] \<or> list_all (\<lambda>row. row = []) rows then Inl ValueError
      else Inr (Table (map (map (\<lambda>cell. Paragraph cell ''Body'')) rows)))"
  by (simp add: table_def new_table_def new_paragraph_STYLES BASE_def err_map_Inr
      list_all_iff)

lemma flush_code_STYLES:
  "flush_code (STYLES sample) st =
     Inr (if code_buf st \<noteq> [] then
            st\<lparr>flow := flow st @ [Paragraph (code_markup (code_buf st)) ''Code''],
               code_buf := []\<rparr>
          else st)"
  by (simp add: flush_code_def new_paragraph_STYLES BASE_def)

lemma flush_table_eval:
  "flush_table (STYLES sample) st =
     (if table_buf st \<noteq> [] \<and> list_all (\<lambda>row. row = []) (table_buf st) then Inl ValueError
      else Inr (if table_buf st \<noteq> [] then
                  st\<lparr>flow := flow st @
                       [Table (map (map (\<lambda>cell. Paragraph cell ''Body'')) (table_buf st)),
                        Spacer],
                     table_buf := []\<rparr>
                else st))"
  by (simp add: flush_table_def table_STYLES)

text \<open>With a filled buffer the guard of \<^verbatim>\<open>flush_table\<close> keeps the table from being empty.\<close>

lemma flush_table_STYLES:
  "rows_filled st \<Longrightarrow>
   flush_table (STYLES sample) st =
     Inr (if table_buf st \<noteq> [] then
            st\<lparr>flow := flow st @
                 [Table (map (map (\<lambda>cell. Paragraph cell ''Body'')) (table_buf st)), Spacer],
               table_buf := []\<rparr>
          else st)"
  by (cases "table_buf st") (simp_all add: flush_table_eval rows_filled_def)

lemma append_paragraph_STYLES:
  "name \<in> set BASE \<Longrightarrow>
   append_paragraph (STYLES sample) st txt name =
     Inr (st\<lparr>flow := flow st @ [Paragraph txt name]\<rparr>)"
  by (simp add: append_paragraph_def new_paragraph_STYLES)

text \<open>The equations that evaluate the program on a text of ASCII characters.\<close>

lemmas eval_defs = markdown_to_flowables_def step_def flush_code_STYLES flush_table_eval
  append_paragraph_STYLES BASE_def init_def sanitize_def repl_def str_def category_ascii_def
  splitlines_def is_linebreak_def strip_def lstrip_def rstrip_def isspace_def row_cells_def
  strip_chars_def split_def fullmatch_hyphens_def fmt_inline_def html_escape_def
  bold_template_def italic_template_def match_at_def code_markup_def

section \<open>The inline formatter on bold and italic text\<close>

text \<open>
  Claim C1. The inline formatter should turn \<^verbatim>\<open>**X**\<close> into \<open>X\<close> wrapped in bold markup and
  \<^verbatim>\<open>*X*\<close> into \<open>X\<close> wrapped in italic markup. The program does not: on the text
  \<^verbatim>\<open>**Bold** and *italic*\<close> it returns \<^verbatim>\<open><b>\1</b> and <i>\1</i>\<close>, a backslash and the
  digit one between the tags where the words \<^verbatim>\<open>Bold\<close> and \<^verbatim>\<open>italic\<close> should stand. The
  templates are raw strings with two backslashes, which the template language reads as
  an escaped backslash, not as a reference to group 1.
\<close>

theorem fmt_inline_loses_emphasised_text:
  "fmt_inline (str ''**Bold** and *italic*'') =
     str ''<b>'' @ [92, 49] @ str ''</b> and <i>'' @ [92, 49] @ str ''</i>''"
  by (simp add: eval_defs)

section \<open>The loop as a whole\<close>

lemma err_bind_assoc:
  "err_bind (err_bind m f) g = err_bind m (\<lambda>x. err_bind (f x) g)"
  by (cases m) simp_all

lemma err_bind_eq_Inr:
  "err_bind m f = Inr y \<longleftrightarrow> (\<exists>x. m = Inr x \<and> f x = Inr y)"
  by (cases m) simp_all

lemmas step_simps = step_def Let_def flush_code_STYLES flush_table_STYLES
  append_paragraph_STYLES BASE_def

lemma split_from_not_Nil: "split_from cur sep s \<noteq> []"
  by (induction s arbitrary: cur) simp_all

lemma row_cells_not_Nil: "row_cells line \<noteq> []"
  by (simp add: row_cells_def split_def split_from_not_Nil)

lemma rows_filled_init: "rows_filled init"
  by (simp add: rows_filled_def init_def)

lemma step_returns:
  "rows_filled st \<Longrightarrow> \<exists>st'. step (STYLES sample) cat st raw = Inr st'"
  by (simp add: step_simps)

lemma step_rows_filled:
  "rows_filled st \<Longrightarrow> step (STYLES sample) cat st raw = Inr st' \<Longrightarrow> rows_filled st'"
  by (auto simp: step_simps rows_filled_def row_cells_not_Nil split: if_splits)

lemma run_append:
  "run S cat st (xs @ ys) = err_bind (run S cat st xs) (\<lambda>st. run S cat st ys)"
proof (induction xs arbitrary: st)
  case Nil
  show ?case by simp
next
  case (Cons x xs)
  show ?case by (simp add: Cons.IH err_bind_assoc)
qed

lemma run_returns:
  "rows_filled st \<Longrightarrow>
   \<exists>st'. run (STYLES sample) cat st raws = Inr st' \<and> rows_filled st'"
proof (induction raws arbitrary: st)
  case Nil
  then show ?case by simp
next
  case (Cons raw raws)
  from Cons.prems obtain st1 where s: "step (STYLES sample) cat st raw = Inr st1"
    using step_returns by blast
  with Cons.prems have "rows_filled st1" by (rule step_rows_filled)
  from Cons.IH [OF this] s show ?case by simp
qed

text \<open>A property of the state that every step keeps holds after the loop.\<close>

lemma run_invariant:
  assumes "run S cat st raws = Inr st'" and "P st"
    and step: "\<And>st raw st'. raw \<in> set raws \<Longrightarrow> P st \<Longrightarrow> step S cat st raw = Inr st' \<Longrightarrow> P st'"
  shows "P st'"
  using assms
proof (induction raws arbitrary: st)
  case Nil
  then show ?case by simp
next
  case (Cons raw raws)
  from Cons.prems(1) obtain st1 where s1: "step S cat st raw = Inr st1"
    and r: "run S cat st1 raws = Inr st'"
    by (auto simp: err_bind_eq_Inr)
  have p1: "P st1" using Cons.prems(3) [of raw st st1] Cons.prems(2) s1 by simp
  have "P t'" if "raw' \<in> set raws" and "P t" and "step S cat t raw' = Inr t'"
    for t raw' t'
    using Cons.prems(3) [of raw' t t'] that by simp
  with Cons.IH [OF r p1] show ?case by blast
qed

lemma run_rows_filled:
  assumes "run (STYLES sample) cat st raws = Inr st'" and "rows_filled st"
  shows "rows_filled st'"
  using assms by (rule run_invariant) (rule step_rows_filled)

lemma run_invariant_filled:
  assumes r: "run (STYLES sample) cat st raws = Inr st'" and p: "P st"
    and f: "rows_filled st"
    and step: "\<And>st raw st'. raw \<in> set raws \<Longrightarrow> P st \<Longrightarrow> rows_filled st \<Longrightarrow>
      step (STYLES sample) cat st raw = Inr st' \<Longrightarrow> P st'"
  shows "P st'"
proof -
  from p f have "P st \<and> rows_filled st" ..
  with r have "P st' \<and> rows_filled st'"
  proof (rule run_invariant)
    fix t raw t'
    assume "raw \<in> set raws" and "P t \<and> rows_filled t"
      and "step (STYLES sample) cat t raw = Inr t'"
    then show "P t' \<and> rows_filled t'"
      using step [of raw t t'] step_rows_filled [of t sample cat raw t'] by blast
  qed
  then show ?thesis ..
qed

text \<open>The end of the function: the two flushes and the returned list.\<close>

lemma markdown_to_flowables_STYLES:
  assumes "run (STYLES sample) cat init (splitlines (strip md) @ [[]]) = Inr st"
  shows "markdown_to_flowables (STYLES sample) cat md =
     Inr (flow st
          @ (if table_buf st \<noteq> []
             then [Table (map (map (\<lambda>cell. Paragraph cell ''Body'')) (table_buf st)), Spacer]
             else [])
          @ (if code_buf st \<noteq> [] then [Paragraph (code_markup (code_buf st)) ''Code'']
             else []))"
proof -
  from assms rows_filled_init have "rows_filled st" by (rule run_rows_filled)
  then show ?thesis
    by (simp add: markdown_to_flowables_def assms flush_table_STYLES flush_code_STYLES)
qed

lemma markdown_to_flowables_returns:
  "\<exists>blocks. markdown_to_flowables (STYLES sample) cat md = Inr blocks"
proof -
  obtain st where "run (STYLES sample) cat init (splitlines (strip md) @ [[]]) = Inr st"
    using run_returns [OF rows_filled_init] by blast
  then have "\<exists>blocks. markdown_to_flowables (STYLES sample) cat md = Inr blocks"
    by (intro exI) (rule markdown_to_flowables_STYLES)
  then show ?thesis .
qed

text \<open>
  The sample sheet of the library has no part in the result: the five styles the
  function asks for are registered whatever the sheet held. The examples below are
  evaluated with the empty sheet.
\<close>

lemma step_sample: "step (STYLES sample) cat st raw = step (STYLES []) cat st raw"
  by (simp add: step_def Let_def flush_code_STYLES flush_table_eval append_paragraph_STYLES
      BASE_def)

lemma run_sample: "run (STYLES sample) cat st raws = run (STYLES []) cat st raws"
proof (induction raws arbitrary: st)
  case Nil
  show ?case by simp
next
  case (Cons raw raws)
  have "step (STYLES sample) cat st raw = step (STYLES []) cat st raw"
    by (rule step_sample)
  with Cons.IH show ?case by (simp only: run.simps)
qed

lemma markdown_to_flowables_sample:
  "markdown_to_flowables (STYLES sample) cat md = markdown_to_flowables (STYLES []) cat md"
proof -
  have "run (STYLES sample) cat init (splitlines (strip md) @ [[]]) =
        run (STYLES []) cat init (splitlines (strip md) @ [[]])"
    by (rule run_sample)
  then show ?thesis
    by (simp add: markdown_to_flowables_def flush_table_eval flush_code_STYLES)
qed

lemma sanitize_Nil [simp]: "sanitize cat [] = []"
  by (simp add: sanitize_def repl_def str_def)

lemma strip_Nil [simp]: "strip [] = []"
  by (simp add: strip_def lstrip_def rstrip_def)

lemma strip_all_space:
  assumes "list_all isspace md"
  shows "strip md = []"
proof -
  from assms have "dropWhile isspace md = []"
    by (induction md) simp_all
  then show ?thesis
    by (simp add: strip_def lstrip_def rstrip_def del: dropWhile_eq_Nil_conv)
qed

text \<open>The synthetic empty line that ends the loop.\<close>

lemma step_empty_line:
  "rows_filled st \<Longrightarrow>
   step (STYLES sample) cat st [] =
     Inr (if in_code st then st\<lparr>code_buf := code_buf st @ [[]]\<rparr>
          else if table_buf st \<noteq> [] then
            st\<lparr>flow := flow st @
                 [Table (map (map (\<lambda>cell. Paragraph cell ''Body'')) (table_buf st)),
                  Spacer, Spacer],
               table_buf := []\<rparr>
          else st\<lparr>flow := flow st @ [Spacer]\<rparr>)"
  by (simp add: step_simps str_def)

section \<open>No exception\<close>

text \<open>
  The exceptions in the model are the \<^verbatim>\<open>KeyError\<close> of a style lookup and the \<^verbatim>\<open>ValueError\<close>
  of a table without cells. Both can happen in the functions the scanner calls: a sheet
  without the style \<^verbatim>\<open>Body\<close> has no paragraph for a cell, and \<^verbatim>\<open>_table\<close> fails on no rows
  and on an empty row.
\<close>

lemma table_can_raise:
  "table [] [[str ''a'']] = Inl (KeyError ''Body'')
   \<and> table (STYLES sample) [] = Inl ValueError
   \<and> table (STYLES sample) [[]] = Inl ValueError"
  by (simp add: table_STYLES) (simp add: table_def new_paragraph_def getitem_def)


section \<open>At least one block\<close>

text \<open>
  Claim C10. For every input text \<^verbatim>\<open>markdown_to_flowables\<close> returns a list that is not
  empty: the empty line added after the lines of the text gives a block of its own or, in
  an open code fence, a line of the code block. For the empty text and for a text of
  white space only the result is exactly one \<^verbatim>\<open>Spacer\<close>.
\<close>

theorem markdown_to_flowables_nonempty:
  "(\<exists>blocks. markdown_to_flowables (STYLES sample) cat md = Inr blocks \<and> blocks \<noteq> [])
   \<and> (list_all isspace md \<longrightarrow>
        markdown_to_flowables (STYLES sample) cat md = Inr [Spacer])"
proof
  obtain st0 where r0: "run (STYLES sample) cat init (splitlines (strip md)) = Inr st0"
    and f0: "rows_filled st0"
    using run_returns [OF rows_filled_init] by blast
  obtain st1 where s1: "step (STYLES sample) cat st0 [] = Inr st1"
    and n1: "flow st1 \<noteq> [] \<or> code_buf st1 \<noteq> []"
    using f0 by (simp add: step_empty_line)
  from r0 s1 have "run (STYLES sample) cat init (splitlines (strip md) @ [[]]) = Inr st1"
    by (simp add: run_append)
  then have "markdown_to_flowables (STYLES sample) cat md =
     Inr (flow st1
          @ (if table_buf st1 \<noteq> []
             then [Table (map (map (\<lambda>cell. Paragraph cell ''Body'')) (table_buf st1)), Spacer]
             else [])
          @ (if code_buf st1 \<noteq> [] then [Paragraph (code_markup (code_buf st1)) ''Code'']
             else []))"
    by (rule markdown_to_flowables_STYLES)
  with n1 show "\<exists>blocks. markdown_to_flowables (STYLES sample) cat md = Inr blocks \<and> blocks \<noteq> []"
    by auto
next
  show "list_all isspace md \<longrightarrow>
        markdown_to_flowables (STYLES sample) cat md = Inr [Spacer]"
  proof
    assume "list_all isspace md"
    then have "strip md = []" by (rule strip_all_space)
    then have "run (STYLES sample) cat init (splitlines (strip md) @ [[]]) =
        Inr (init\<lparr>flow := [Spacer]\<rparr>)"
      by (simp add: splitlines_def step_empty_line rows_filled_init) (simp add: init_def)
    then have "markdown_to_flowables (STYLES sample) cat md =
        Inr (flow (init\<lparr>flow := [Spacer]\<rparr>)
          @ (if table_buf (init\<lparr>flow := [Spacer]\<rparr>) \<noteq> []
             then [Table (map (map (\<lambda>cell. Paragraph cell ''Body''))
                     (table_buf (init\<lparr>flow := [Spacer]\<rparr>))), Spacer]
             else [])
          @ (if code_buf (init\<lparr>flow := [Spacer]\<rparr>) \<noteq> []
             then [Paragraph (code_markup (code_buf (init\<lparr>flow := [Spacer]\<rparr>))) ''Code'']
             else []))"
      by (rule markdown_to_flowables_STYLES)
    then show "markdown_to_flowables (STYLES sample) cat md = Inr [Spacer]"
      by (simp add: init_def)
  qed
qed

theorem markdown_to_flowables_nonempty_witness:
  "list_all isspace (str '' '') \<and> list_all isspace []
   \<and> markdown_to_flowables (STYLES []) category_ascii (str '' '') = Inr [Spacer]
   \<and> markdown_to_flowables (STYLES []) category_ascii [] = Inr [Spacer]"
proof -
  have a: "list_all isspace (str '' '')" by (simp add: str_def isspace_def)
  have b: "list_all isspace []" by simp
  from a markdown_to_flowables_nonempty [of "[]" category_ascii "str '' ''"]
  have "markdown_to_flowables (STYLES []) category_ascii (str '' '') = Inr [Spacer]"
    by blast
  moreover from b markdown_to_flowables_nonempty [of "[]" category_ascii "[]"]
  have "markdown_to_flowables (STYLES []) category_ascii [] = Inr [Spacer]"
    by blast
  ultimately show ?thesis using a b by blast
qed

section \<open>A spacer after every table\<close>

lemma tables_spaced_Nil: "tables_spaced []"
  by (simp add: tables_spaced_def)

lemma tables_spaced_snoc:
  assumes "tables_spaced bs" and "\<not> is_table b"
  shows "tables_spaced (bs @ [b])"
  unfolding tables_spaced_def
proof (intro allI impI)
  fix i
  assume i: "i < length (bs @ [b])" and t: "is_table ((bs @ [b]) ! i)"
  from t assms(2) have "i \<noteq> length bs" by auto
  with i have il: "i < length bs" by simp
  with t have "is_table (bs ! i)" by (simp add: nth_append)
  with assms(1) il have "Suc i < length bs" and "bs ! Suc i = Spacer"
    by (auto simp: tables_spaced_def)
  then show "Suc i < length (bs @ [b]) \<and> (bs @ [b]) ! Suc i = Spacer"
    by (simp add: nth_append)
qed

lemma tables_spaced_table:
  assumes "tables_spaced bs"
  shows "tables_spaced (bs @ [Table rows, Spacer])"
proof -
  have "tables_spaced ((bs @ [Table rows]) @ [Spacer])"
    unfolding tables_spaced_def
  proof (intro allI impI)
    fix i
    assume i: "i < length ((bs @ [Table rows]) @ [Spacer])"
      and t: "is_table (((bs @ [Table rows]) @ [Spacer]) ! i)"
    show "Suc i < length ((bs @ [Table rows]) @ [Spacer]) \<and>
          ((bs @ [Table rows]) @ [Spacer]) ! Suc i = Spacer"
    proof (cases "i < length bs")
      case True
      with t have "is_table (bs ! i)" by (simp add: nth_append)
      with assms True have "Suc i < length bs" and "bs ! Suc i = Spacer"
        by (auto simp: tables_spaced_def)
      then show ?thesis by (simp add: nth_append)
    next
      case False
      with i t have "i = length bs"
        by (auto simp: nth_append less_Suc_eq split: if_splits)
      then show ?thesis by (simp add: nth_append)
    qed
  qed
  then show ?thesis by simp
qed

lemma tables_spaced_table_snoc:
  assumes "tables_spaced bs" and "\<not> is_table b"
  shows "tables_spaced (bs @ [Table rows, Spacer, b])"
proof -
  have "tables_spaced ((bs @ [Table rows, Spacer]) @ [b])"
    using assms by (intro tables_spaced_snoc tables_spaced_table)
  then show ?thesis by simp
qed

lemma step_tables_spaced:
  assumes "tables_spaced (flow st)" and "rows_filled st"
    and "step (STYLES sample) cat st raw = Inr st'"
  shows "tables_spaced (flow st')"
  using assms
  by (auto simp: step_simps tables_spaced_snoc tables_spaced_table tables_spaced_table_snoc
      split: if_splits)

lemma markdown_to_flowables_tables_spaced:
  "\<exists>blocks. markdown_to_flowables (STYLES sample) cat md = Inr blocks \<and> tables_spaced blocks"
proof -
  obtain st
    where r: "run (STYLES sample) cat init (splitlines (strip md) @ [[]]) = Inr st"
    using run_returns [OF rows_filled_init] by blast
  have "tables_spaced (flow init)" by (simp add: init_def tables_spaced_Nil)
  with r have "tables_spaced (flow st)" using rows_filled_init
    by (rule run_invariant_filled [where P = "\<lambda>st. tables_spaced (flow st)"])
      (rule step_tables_spaced)
  then have "tables_spaced (flow st
          @ (if table_buf st \<noteq> []
             then [Table (map (map (\<lambda>cell. Paragraph cell ''Body'')) (table_buf st)), Spacer]
             else [])
          @ (if code_buf st \<noteq> [] then [Paragraph (code_markup (code_buf st)) ''Code'']
             else []))"
    by (auto simp: tables_spaced_snoc tables_spaced_table tables_spaced_table_snoc)
  with markdown_to_flowables_STYLES [OF r] show ?thesis by blast
qed

text \<open>
  Claim C9. For every input, each \<^verbatim>\<open>Table\<close> in the list that \<^verbatim>\<open>markdown_to_flowables\<close> returns
  is immediately followed by a \<^verbatim>\<open>Spacer\<close>: the function returns a list, and wherever a
  table stands at a position of it, the next position exists and holds a spacer.
\<close>

theorem table_followed_by_spacer:
  "\<exists>blocks. markdown_to_flowables (STYLES sample) cat md = Inr blocks
     \<and> (\<forall>i < length blocks. is_table (blocks ! i) \<longrightarrow>
          Suc i < length blocks \<and> blocks ! Suc i = Spacer)"
proof -
  obtain blocks where "markdown_to_flowables (STYLES sample) cat md = Inr blocks"
    and "tables_spaced blocks"
    using markdown_to_flowables_tables_spaced by blast
  then show ?thesis by (auto simp: tables_spaced_def)
qed

theorem table_followed_by_spacer_witness:
  "markdown_to_flowables (STYLES []) category_ascii (str ''| a |'' @ [10] @ str ''text'') =
     Inr [Table [[Paragraph (str ''a'') ''Body'']], Spacer, Paragraph (str ''text'') ''Body'',
          Spacer]
   \<and> is_table ([Table [[Paragraph (str ''a'') ''Body'']], Spacer,
                 Paragraph (str ''text'') ''Body'', Spacer] ! 0)
   \<and> [Table [[Paragraph (str ''a'') ''Body'']], Spacer,
        Paragraph (str ''text'') ''Body'', Spacer] ! Suc 0 = Spacer"
proof -
  have e: "markdown_to_flowables (STYLES []) category_ascii
             (str ''| a |'' @ [10] @ str ''text'') =
           Inr [Table [[Paragraph (str ''a'') ''Body'']], Spacer,
                Paragraph (str ''text'') ''Body'', Spacer]"
    by (simp add: eval_defs)
  from table_followed_by_spacer [of "[]" category_ascii "str ''| a |'' @ [10] @ str ''text''"]
  have "[Table [[Paragraph (str ''a'') ''Body'']], Spacer,
         Paragraph (str ''text'') ''Body'', Spacer] ! Suc 0 = Spacer"
    unfolding e by auto
  with e show ?thesis by simp
qed

section \<open>The example of the module's documentation\<close>

lemma demo_eval:
  "markdown_to_flowables (STYLES sample) category_ascii demo =
     Inr [Paragraph (str ''Demo'') ''H3'',
          Table [[Paragraph (str ''<b>'' @ [92, 49] @ str ''</b>'') ''Body'',
                  Paragraph (str ''<i>'' @ [92, 49] @ str ''</i>'') ''Body''],
                 [Paragraph (str ''cell A'') ''Body'', Paragraph (str ''cell B'') ''Body'']],
          Spacer, Spacer]"
  by (simp add: demo_def eval_defs)

text \<open>
  Claim C2, as the specification states it: on the four lines of \<open>demo\<close> the function
  yields exactly two blocks, the heading of level 3 with the text \<^verbatim>\<open>Demo\<close> (a paragraph
  of the style \<^verbatim>\<open>H3\<close>) and one table whose rows are the bold \<^verbatim>\<open>Bold\<close> and the italic
  \<^verbatim>\<open>Italic\<close>, then \<^verbatim>\<open>cell A\<close> and \<^verbatim>\<open>cell B\<close>. The program returns another list.
\<close>

theorem demo_two_blocks_counterexample:
  "markdown_to_flowables (STYLES []) category_ascii demo \<noteq>
     Inr [Paragraph (str ''Demo'') ''H3'',
          Table [[Paragraph (str ''<b>Bold</b>'') ''Body'',
                  Paragraph (str ''<i>Italic</i>'') ''Body''],
                 [Paragraph (str ''cell A'') ''Body'', Paragraph (str ''cell B'') ''Body'']]]"
  by (simp add: demo_eval)

text \<open>
  Claim C2, amended: on the four lines of \<open>demo\<close> the function yields exactly four blocks,
  the heading of level 3 with the text \<^verbatim>\<open>Demo\<close>, one table of two rows, the first of two
  cells and the second \<^verbatim>\<open>cell A\<close> and \<^verbatim>\<open>cell B\<close>, the spacer that follows every table and
  the spacer of the empty line that ends the loop. (What the two cells of the first row
  hold is the matter of claim C1.)
\<close>

theorem demo_blocks:
  "\<exists>header.
     markdown_to_flowables (STYLES sample) category_ascii demo =
       Inr [Paragraph (str ''Demo'') ''H3'',
            Table [header,
                   [Paragraph (str ''cell A'') ''Body'', Paragraph (str ''cell B'') ''Body'']],
            Spacer, Spacer]
     \<and> length header = 2"
  by (simp add: demo_eval)

section \<open>A code block and the table before it\<close>

text \<open>
  Claim C3. A pending table must be flushed into the list before a block of another kind
  is appended; no code block may be appended while table rows are buffered. The program
  does not keep to it: a fence line is handled before the table buffer is looked at, so
  for a table row followed by a fenced code block the code block is appended first and
  the table, flushed at the next line that is no table row, comes after it. The text here
  is the row \<^verbatim>\<open>| a |\<close>, a fence, the line \<^verbatim>\<open>code\<close> and a fence.
\<close>

theorem code_block_overtakes_table:
  "markdown_to_flowables (STYLES []) category_ascii
     (str ''| a |'' @ [10] @ str ''```'' @ [10] @ str ''code'' @ [10] @ str ''```'') =
   Inr [Paragraph (str ''code'') ''Code'', Table [[Paragraph (str ''a'') ''Body'']],
        Spacer, Spacer]"
  by (simp add: eval_defs)

section \<open>A code fence that is never closed\<close>

lemma not_is_fence_Nil [simp]: "\<not> is_fence cat []"
  by (simp add: is_fence_def str_def)

lemma step_fence_open:
  "\<not> in_code st \<Longrightarrow> is_fence cat raw \<Longrightarrow> step S cat st raw = Inr (st\<lparr>in_code := True\<rparr>)"
  by (simp add: step_def is_fence_def)

lemma step_inside:
  "in_code st \<Longrightarrow> \<not> is_fence cat raw \<Longrightarrow>
   step S cat st raw = Inr (st\<lparr>code_buf := code_buf st @ [sanitize cat raw]\<rparr>)"
  by (simp add: step_def is_fence_def)

lemma run_inside:
  "in_code st \<Longrightarrow> \<forall>raw \<in> set raws. \<not> is_fence cat raw \<Longrightarrow>
   run S cat st raws = Inr (st\<lparr>code_buf := code_buf st @ map (sanitize cat) raws\<rparr>)"
proof (induction raws arbitrary: st)
  case Nil
  show ?case by simp
next
  case (Cons raw raws)
  then show ?case by (simp add: step_inside)
qed

lemma step_outside:
  assumes "outside_code st" and "rows_filled st" and "\<not> is_fence cat raw"
    and "step (STYLES sample) cat st raw = Inr st'"
  shows "outside_code st'"
  using assms
  by (auto simp: step_simps outside_code_def is_fence_def split: if_splits)

lemma run_outside:
  assumes "run (STYLES sample) cat st raws = Inr st'" and "outside_code st"
    and "rows_filled st" and "\<forall>raw \<in> set raws. \<not> is_fence cat raw"
  shows "outside_code st'"
  using assms(1,2,3)
proof (rule run_invariant_filled)
  fix t raw t'
  assume "raw \<in> set raws" and "outside_code t" and "rows_filled t"
    and "step (STYLES sample) cat t raw = Inr t'"
  with assms(4) show "outside_code t'" by (blast intro: step_outside)
qed

text \<open>
  Claim C7, as the specification states it: with an opening fence and no closing fence
  the one code block holds exactly the lines after the fence and no other line. For a
  fence followed by the line \<^verbatim>\<open>code line\<close> the program returns a code block of two lines,
  \<^verbatim>\<open>code line\<close> and an empty line, which is another markup than that of the one line.
\<close>

theorem unterminated_fence_counterexample:
  "markdown_to_flowables (STYLES []) category_ascii (str ''```'' @ [10] @ str ''code line'') =
     Inr [Paragraph (code_markup [str ''code line'', []]) ''Code'']
   \<and> code_markup [str ''code line'', []] \<noteq> code_markup [str ''code line'']"
  by (simp add: eval_defs)

text \<open>
  Claim C7, amended: for every input whose lines hold exactly one fence line, an opening
  fence that is never closed, \<^verbatim>\<open>markdown_to_flowables\<close> yields exactly one code block, the
  last block of the result. Its content is the sanitized lines after the fence followed
  by one empty line, the empty line that the loop adds after the lines of the text.
\<close>

theorem unterminated_fence:
  assumes lines: "splitlines (strip md) = before @ fence # after"
    and before: "\<forall>raw \<in> set before. \<not> is_fence cat raw"
    and fence: "is_fence cat fence"
    and after: "\<forall>raw \<in> set after. \<not> is_fence cat raw"
  shows "\<exists>blocks.
           markdown_to_flowables (STYLES sample) cat md =
             Inr (blocks @ [Paragraph (code_markup (map (sanitize cat) after @ [[]])) ''Code''])
           \<and> (\<forall>b \<in> set blocks. \<not> is_code_block b)"
proof -
  obtain st0 where r0: "run (STYLES sample) cat init before = Inr st0"
    using run_returns [OF rows_filled_init] by blast
  have "outside_code init" by (simp add: outside_code_def init_def)
  with r0 have o: "outside_code st0" using rows_filled_init before by (rule run_outside)
  then have nc: "\<not> in_code st0" and cb: "code_buf st0 = []"
    and fl: "\<forall>b \<in> set (flow st0). \<not> is_code_block b"
    by (simp_all add: outside_code_def)
  have s1: "step (STYLES sample) cat st0 fence = Inr (st0\<lparr>in_code := True\<rparr>)"
    using nc fence by (rule step_fence_open)
  have "\<forall>raw \<in> set (after @ [[]]). \<not> is_fence cat raw" using after by simp
  then have r2: "run (STYLES sample) cat (st0\<lparr>in_code := True\<rparr>) (after @ [[]]) =
      Inr (st0\<lparr>in_code := True, code_buf := map (sanitize cat) (after @ [[]])\<rparr>)"
    using run_inside [of "st0\<lparr>in_code := True\<rparr>" "after @ [[]]" cat "STYLES sample"] cb
    by simp
  have "splitlines (strip md) @ [[]] = before @ fence # (after @ [[]])"
    using lines by simp
  then have "run (STYLES sample) cat init (splitlines (strip md) @ [[]]) =
      Inr (st0\<lparr>in_code := True, code_buf := map (sanitize cat) (after @ [[]])\<rparr>)"
    using r0 s1 r2 by (simp add: run_append)
  from markdown_to_flowables_STYLES [OF this]
  have "markdown_to_flowables (STYLES sample) cat md =
      Inr ((flow st0 @ (if table_buf st0 \<noteq> []
             then [Table (map (map (\<lambda>cell. Paragraph cell ''Body'')) (table_buf st0)), Spacer]
             else []))
           @ [Paragraph (code_markup (map (sanitize cat) after @ [[]])) ''Code''])"
    by simp
  moreover have "\<forall>b \<in> set (flow st0 @ (if table_buf st0 \<noteq> []
             then [Table (map (map (\<lambda>cell. Paragraph cell ''Body'')) (table_buf st0)), Spacer]
             else [])). \<not> is_code_block b"
    using fl by auto
  ultimately show ?thesis by blast
qed

theorem unterminated_fence_witness:
  "splitlines (strip (str ''text'' @ [10] @ str ''```'' @ [10] @ str ''code line'')) =
     [str ''text''] @ str ''```'' # [str ''code line'']
   \<and> \<not> is_fence category_ascii (str ''text'')
   \<and> is_fence category_ascii (str ''```'')
   \<and> \<not> is_fence category_ascii (str ''code line'')
   \<and> markdown_to_flowables (STYLES []) category_ascii
        (str ''text'' @ [10] @ str ''```'' @ [10] @ str ''code line'') =
      Inr [Paragraph (str ''text'') ''Body'',
           Paragraph (code_markup [str ''code line'', []]) ''Code'']"
proof -
  have l: "splitlines (strip (str ''text'' @ [10] @ str ''```'' @ [10] @ str ''code line'')) =
     [str ''text''] @ str ''```'' # [str ''code line'']"
    by (simp add: eval_defs)
  have b: "\<forall>raw \<in> set [str ''text'']. \<not> is_fence category_ascii raw"
    by (simp add: is_fence_def eval_defs)
  have f: "is_fence category_ascii (str ''```'')"
    by (simp add: is_fence_def eval_defs)
  have a: "\<forall>raw \<in> set [str ''code line'']. \<not> is_fence category_ascii raw"
    by (simp add: is_fence_def eval_defs)
  have s: "sanitize category_ascii (str ''code line'') = str ''code line''"
    by (simp add: eval_defs)
  have e: "markdown_to_flowables (STYLES []) category_ascii
        (str ''text'' @ [10] @ str ''```'' @ [10] @ str ''code line'') =
      Inr [Paragraph (str ''text'') ''Body'',
           Paragraph (code_markup [str ''code line'', []]) ''Code'']"
    by (simp add: eval_defs)
  from unterminated_fence [OF l b f a, of "[]"] e s
  show ?thesis using l b f a by simp
qed

section \<open>The cells of a table line\<close>

lemma takeWhile_eq_replicate: "\<exists>n. takeWhile (\<lambda>c. c = a) s = replicate n a"
proof (induction s)
  case Nil
  show ?case by simp
next
  case (Cons c s)
  then obtain n where n: "takeWhile (\<lambda>c. c = a) s = replicate n a" ..
  show ?case
  proof (cases "c = a")
    case True
    with n have "takeWhile (\<lambda>c. c = a) (c # s) = replicate (Suc n) a" by simp
    then show ?thesis ..
  next
    case False
    then have "takeWhile (\<lambda>c. c = a) (c # s) = replicate 0 a" by simp
    then show ?thesis ..
  qed
qed

lemma rev_dropWhile_decomp:
  "rev (dropWhile P (rev xs)) @ rev (takeWhile P (rev xs)) = xs"
proof -
  have "rev (takeWhile P (rev xs) @ dropWhile P (rev xs)) = xs"
    by (simp only: takeWhile_dropWhile_id rev_rev_ident)
  then show ?thesis by (simp only: rev_append)
qed

lemma dropWhile_replicate_append:
  "core \<noteq> [] \<Longrightarrow> hd core \<noteq> a \<Longrightarrow>
   dropWhile (\<lambda>c. c = a) (replicate i a @ core) = core"
  by (induction i) (auto simp: neq_Nil_conv)

lemma dropWhile_replicate_only:
  "dropWhile (\<lambda>c. c = a) (replicate i a @ replicate j a) = []"
  by (simp add: set_replicate_conv_if)

lemma strip_pipes_unique:
  assumes s: "s = replicate i 124 @ core @ replicate j 124"
    and ends: "core = [] \<or> (hd core \<noteq> 124 \<and> last core \<noteq> 124)"
  shows "strip_chars s (str ''|'') = core"
proof (cases "core = []")
  case True
  have "dropWhile (\<lambda>c. c = 124) (replicate i 124 @ replicate j 124) = ([]::nat list)"
    by (rule dropWhile_replicate_only)
  then have "dropWhile (\<lambda>c. c = 124) s = []"
    unfolding s True by (simp only: append_Nil)
  then have "strip_chars s (str ''|'') = []"
    unfolding strip_chars_def str_def by (simp del: dropWhile_eq_Nil_conv)
  with True show ?thesis by (simp only:)
next
  case False
  with ends have h: "hd core \<noteq> 124" and l: "last core \<noteq> 124" by simp_all
  from False h have "dropWhile (\<lambda>c. c = 124) (replicate i 124 @ (core @ replicate j 124))
      = core @ replicate j 124"
    by (intro dropWhile_replicate_append) simp_all
  then have d: "dropWhile (\<lambda>c. c = 124) s = core @ replicate j 124"
    unfolding s .
  from False l have "dropWhile (\<lambda>c. c = 124) (replicate j 124 @ rev core) = rev core"
    by (intro dropWhile_replicate_append) (simp_all add: hd_rev)
  then have "dropWhile (\<lambda>c. c = 124) (rev (core @ replicate j 124)) = rev core"
    by simp
  then have "rev (dropWhile (\<lambda>c. c = 124) (rev (dropWhile (\<lambda>c. c = 124) s))) = core"
    unfolding d by simp
  then show ?thesis unfolding strip_chars_def str_def by simp
qed

lemma strip_pipes_decomp:
  "\<exists>i j. s = replicate i 124 @ strip_chars s (str ''|'') @ replicate j 124"
proof -
  let ?P = "\<lambda>c. c = (124::nat)"
  let ?d = "dropWhile ?P s"
  let ?core = "rev (dropWhile ?P (rev ?d))"
  have c: "strip_chars s (str ''|'') = ?core"
    by (simp add: strip_chars_def str_def)
  have "\<exists>i. takeWhile ?P s = replicate i 124"
    by (rule takeWhile_eq_replicate)
  then obtain i where i: "takeWhile ?P s = replicate i 124" ..
  have "\<exists>j. takeWhile ?P (rev ?d) = replicate j 124"
    by (rule takeWhile_eq_replicate)
  then obtain j where j: "takeWhile ?P (rev ?d) = replicate j 124" ..
  have "takeWhile ?P s @ ?d = s" by (rule takeWhile_dropWhile_id)
  then have 1: "replicate i 124 @ ?d = s" by (simp only: i)
  have "?core @ rev (takeWhile ?P (rev ?d)) = ?d" by (rule rev_dropWhile_decomp)
  then have 2: "?core @ replicate j 124 = ?d" by (simp only: j rev_replicate)
  from 1 have "replicate i 124 @ (?core @ replicate j 124) = s" by (simp only: 2)
  then have "s = replicate i 124 @ strip_chars s (str ''|'') @ replicate j 124"
    by (simp only: c)
  then show ?thesis by blast
qed

lemma strip_pipes_ends:
  assumes "strip_chars s (str ''|'') \<noteq> []"
  shows "hd (strip_chars s (str ''|'')) \<noteq> 124 \<and> last (strip_chars s (str ''|'')) \<noteq> 124"
proof -
  let ?P = "\<lambda>c. c = (124::nat)"
  let ?d = "dropWhile ?P s"
  let ?e = "dropWhile ?P (rev ?d)"
  have c: "strip_chars s (str ''|'') = rev ?e" by (simp add: strip_chars_def str_def)
  with assms have e: "?e \<noteq> []" by simp
  then have "\<not> ?P (hd ?e)" by (rule hd_dropWhile)
  then have l: "last (rev ?e) \<noteq> 124" using e by (simp add: last_rev)
  have dn: "?d \<noteq> []"
  proof
    assume "?d = []"
    then have "?e = []" by (simp only: rev.simps dropWhile.simps)
    with e show False by (rule notE)
  qed
  then have hd: "\<not> ?P (hd ?d)" by (rule hd_dropWhile)
  have "?d = rev ?e @ rev (takeWhile ?P (rev ?d))"
    by (simp only: rev_dropWhile_decomp)
  then have "hd ?d = hd (rev ?e @ rev (takeWhile ?P (rev ?d)))" by (rule arg_cong)
  also have "\<dots> = hd (rev ?e)" using e by (simp only: hd_append2 rev_is_Nil_conv not_False_eq_True)
  finally have "hd ?d = hd (rev ?e)" .
  with hd l show ?thesis unfolding c by simp
qed

lemma strip_one_pipe_decomp:
  "\<exists>i j. s = replicate i 124 @ strip_one_pipe s @ replicate j 124"
proof -
  define s1 where "s1 = (if s \<noteq> [] \<and> hd s = 124 then tl s else s)"
  have t: "strip_one_pipe s = (if s1 \<noteq> [] \<and> last s1 = 124 then butlast s1 else s1)"
    by (simp add: strip_one_pipe_def s1_def Let_def)
  have a: "\<exists>i. s = replicate i 124 @ s1"
  proof (cases "s \<noteq> [] \<and> hd s = 124")
    case True
    then have "s = replicate 1 124 @ s1" by (cases s) (simp_all add: s1_def)
    then show ?thesis ..
  next
    case False
    then have "s1 = s" unfolding s1_def by (rule if_not_P)
    then have "s = replicate 0 124 @ s1" by simp
    then show ?thesis ..
  qed
  have b: "\<exists>j. s1 = strip_one_pipe s @ replicate j 124"
  proof (cases "s1 \<noteq> [] \<and> last s1 = 124")
    case True
    then have "butlast s1 @ [124] = s1" using append_butlast_last_id [of s1] by simp
    with True have "s1 = strip_one_pipe s @ replicate 1 124" by (simp add: t)
    then show ?thesis ..
  next
    case False
    then have "strip_one_pipe s = s1" unfolding t by (rule if_not_P)
    then have "s1 = strip_one_pipe s @ replicate 0 124" by simp
    then show ?thesis ..
  qed
  from a obtain i where i: "s = replicate i 124 @ s1" ..
  from b obtain j where j: "s1 = strip_one_pipe s @ replicate j 124" ..
  from i have "s = replicate i 124 @ strip_one_pipe s @ replicate j 124"
    by (subst (asm) j)
  then show ?thesis by blast
qed

lemma strip_all_eq_strip_one:
  assumes "strip_one_pipe s = [] \<or>
           (hd (strip_one_pipe s) \<noteq> 124 \<and> last (strip_one_pipe s) \<noteq> 124)"
  shows "strip_chars s (str ''|'') = strip_one_pipe s"
proof -
  from strip_one_pipe_decomp obtain i j
    where "s = replicate i 124 @ strip_one_pipe s @ replicate j 124" by blast
  then show ?thesis using assms by (rule strip_pipes_unique)
qed

text \<open>
  Claim C5, amended: the cells of a table line are obtained by removing every leading
  and every trailing pipe of the stripped line, however many there are, splitting what
  is left at the pipes and trimming every cell. Every stripped line is a run of pipes,
  a core that neither starts nor ends with a pipe, and a run of pipes, and the cells are
  those of the core. This is the reading with exactly one pipe removed at each end
  wherever that reading leaves no pipe at an end. A line that is read outside a code
  fence, holds a pipe and does not start with a hash after its leading white space is
  dropped when its cells are a separator row and otherwise adds its formatted cells as
  one row to the table buffer.
\<close>

theorem table_row_cells:
  "(\<exists>i j core. strip line = replicate i 124 @ core @ replicate j 124
       \<and> (core = [] \<or> (hd core \<noteq> 124 \<and> last core \<noteq> 124)))
   \<and> (\<forall>i j core. strip line = replicate i 124 @ core @ replicate j 124
         \<and> (core = [] \<or> (hd core \<noteq> 124 \<and> last core \<noteq> 124))
         \<longrightarrow> row_cells line = map strip (split core 124))
   \<and> ((strip_one_pipe (strip line) = [] \<or>
         (hd (strip_one_pipe (strip line)) \<noteq> 124 \<and> last (strip_one_pipe (strip line)) \<noteq> 124))
        \<longrightarrow> row_cells line = cells_one_pipe line)
   \<and> (\<not> in_code st \<and> \<not> is_fence cat raw \<and> line = sanitize cat raw \<and> 124 \<in> set line
        \<and> \<not> startswith (lstrip line) (str ''#'')
        \<longrightarrow> step S cat st raw =
             Inr (if list_all (\<lambda>c. fullmatch_hyphens (replace c (str '' '') []))
                       (row_cells line)
                  then st
                  else st\<lparr>table_buf := table_buf st @ [map fmt_inline (row_cells line)]\<rparr>))"
proof (intro conjI allI impI)
  let ?core = "strip_chars (strip line) (str ''|'')"
  from strip_pipes_decomp obtain i j
    where "strip line = replicate i 124 @ ?core @ replicate j 124" by blast
  moreover have "?core = [] \<or> (hd ?core \<noteq> 124 \<and> last ?core \<noteq> 124)"
    using strip_pipes_ends by blast
  ultimately show "\<exists>i j core. strip line = replicate i 124 @ core @ replicate j 124
       \<and> (core = [] \<or> (hd core \<noteq> 124 \<and> last core \<noteq> 124))"
    by blast
next
  fix i j core
  assume "strip line = replicate i 124 @ core @ replicate j 124
         \<and> (core = [] \<or> (hd core \<noteq> 124 \<and> last core \<noteq> 124))"
  then have "strip_chars (strip line) (str ''|'') = core"
    using strip_pipes_unique by blast
  then show "row_cells line = map strip (split core 124)"
    by (simp add: row_cells_def)
next
  assume "strip_one_pipe (strip line) = [] \<or>
         (hd (strip_one_pipe (strip line)) \<noteq> 124 \<and> last (strip_one_pipe (strip line)) \<noteq> 124)"
  then have "strip_chars (strip line) (str ''|'') = strip_one_pipe (strip line)"
    by (rule strip_all_eq_strip_one)
  then show "row_cells line = cells_one_pipe line"
    by (simp add: row_cells_def cells_one_pipe_def)
next
  assume "\<not> in_code st \<and> \<not> is_fence cat raw \<and> line = sanitize cat raw \<and> 124 \<in> set line
        \<and> \<not> startswith (lstrip line) (str ''#'')"
  then have "\<not> in_code st" and "\<not> startswith (strip (sanitize cat raw)) (str ''```'')"
    and "124 \<in> set (sanitize cat raw)"
    and "\<not> startswith (lstrip (sanitize cat raw)) (str ''#'')"
    and "line = sanitize cat raw"
    by (auto simp: is_fence_def)
  then show "step S cat st raw =
             Inr (if list_all (\<lambda>c. fullmatch_hyphens (replace c (str '' '') []))
                       (row_cells line)
                  then st
                  else st\<lparr>table_buf := table_buf st @ [map fmt_inline (row_cells line)]\<rparr>)"
    by (simp add: step_def Let_def)
qed

text \<open>
  Claim C5, as the specification states it: exactly one leading and one trailing pipe
  are removed, so that the line \<^verbatim>\<open>||a|b||\<close> keeps an empty cell at each end. The program
  removes both pipes at each end: the line has the two cells \<^verbatim>\<open>a\<close> and \<^verbatim>\<open>b\<close>.
\<close>

theorem doubled_pipes_counterexample:
  "cells_one_pipe (str ''||a|b||'') = [[], str ''a'', str ''b'', []]
   \<and> row_cells (str ''||a|b||'') = [str ''a'', str ''b'']
   \<and> row_cells (str ''||a|b||'') \<noteq> cells_one_pipe (str ''||a|b||'')
   \<and> markdown_to_flowables (STYLES []) category_ascii (str ''||a|b||'') =
       Inr [Table [[Paragraph (str ''a'') ''Body'', Paragraph (str ''b'') ''Body'']],
            Spacer, Spacer]"
  by (simp add: eval_defs cells_one_pipe_def strip_one_pipe_def)

theorem table_row_cells_witness:
  "strip (str ''||a|b||'') = replicate 2 124 @ str ''a|b'' @ replicate 2 124
   \<and> hd (str ''a|b'') \<noteq> 124 \<and> last (str ''a|b'') \<noteq> 124
   \<and> row_cells (str ''||a|b||'') = map strip (split (str ''a|b'') 124)
   \<and> hd (strip_one_pipe (strip (str ''| a | b |''))) \<noteq> 124
   \<and> last (strip_one_pipe (strip (str ''| a | b |''))) \<noteq> 124
   \<and> row_cells (str ''| a | b |'') = cells_one_pipe (str ''| a | b |'')
   \<and> \<not> in_code init \<and> \<not> is_fence category_ascii (str ''||a|b||'')
   \<and> str ''||a|b||'' = sanitize category_ascii (str ''||a|b||'')
   \<and> 124 \<in> set (str ''||a|b||'')
   \<and> \<not> startswith (lstrip (str ''||a|b||'')) (str ''#'')
   \<and> step (STYLES []) category_ascii init (str ''||a|b||'') =
       Inr (init\<lparr>table_buf := [[str ''a'', str ''b'']]\<rparr>)"
proof -
  have d: "strip (str ''||a|b||'') = replicate 2 124 @ str ''a|b'' @ replicate 2 124"
    by (simp add: eval_defs numeral_2_eq_2)
  have e: "hd (str ''a|b'') \<noteq> 124 \<and> last (str ''a|b'') \<noteq> 124"
    by (simp add: str_def)
  have o: "hd (strip_one_pipe (strip (str ''| a | b |''))) \<noteq> 124
      \<and> last (strip_one_pipe (strip (str ''| a | b |''))) \<noteq> 124"
    by (simp add: eval_defs strip_one_pipe_def)
  have s: "\<not> in_code init \<and> \<not> is_fence category_ascii (str ''||a|b||'')
      \<and> str ''||a|b||'' = sanitize category_ascii (str ''||a|b||'')
      \<and> 124 \<in> set (str ''||a|b||'')
      \<and> \<not> startswith (lstrip (str ''||a|b||'')) (str ''#'')"
    by (simp add: eval_defs is_fence_def)
  have v: "map strip (split (str ''a|b'') 124) = [str ''a'', str ''b'']"
    by (simp add: eval_defs)
  have f: "map fmt_inline [str ''a'', str ''b''] = [str ''a'', str ''b'']"
    by (simp add: eval_defs)
  have nsep: "\<not> list_all (\<lambda>c. fullmatch_hyphens (replace c (str '' '') []))
                 [str ''a'', str ''b'']"
    by (simp add: eval_defs)
  note t1 = table_row_cells [of "str ''||a|b||''" init category_ascii "str ''||a|b||''" "STYLES []"]
  note t2 = table_row_cells [of "str ''| a | b |''" init category_ascii "str ''| a | b |''" "STYLES []"]
  from t1 d e have r: "row_cells (str ''||a|b||'') = map strip (split (str ''a|b'') 124)"
    by blast
  from t2 o have c: "row_cells (str ''| a | b |'') = cells_one_pipe (str ''| a | b |'')"
    by blast
  from t1 s have "step (STYLES []) category_ascii init (str ''||a|b||'') =
       Inr (if list_all (\<lambda>c. fullmatch_hyphens (replace c (str '' '') []))
                       (row_cells (str ''||a|b||''))
                  then init
                  else init\<lparr>table_buf := table_buf init @
                         [map fmt_inline (row_cells (str ''||a|b||''))]\<rparr>)"
    by blast
  then have st: "step (STYLES []) category_ascii init (str ''||a|b||'') =
       Inr (init\<lparr>table_buf := [[str ''a'', str ''b'']]\<rparr>)"
    unfolding r v by (simp only: nsep f if_False) (simp add: init_def)
  from d e r o c s st show ?thesis by blast
qed

section \<open>Sanitizing twice\<close>

lemma startswith_length: "startswith s p \<Longrightarrow> length p \<le> length s"
  by (induction s p rule: startswith.induct) simp_all

lemma startswith_set: "startswith s p \<Longrightarrow> set p \<subseteq> set s"
  by (induction s p rule: startswith.induct) auto

lemma contains_set: "contains s old \<Longrightarrow> set old \<subseteq> set s"
proof (induction s)
  case Nil
  then show ?case by simp
next
  case (Cons c cs)
  then show ?case using startswith_set [of "c # cs" old] by auto
qed

lemma set_replace: "set (replace s old new) \<subseteq> set s \<union> set new"
proof (induction s old new rule: replace.induct)
  case (1 s new)
  show ?case by auto
next
  case (2 b bs new)
  show ?case by simp
next
  case (3 c cs b bs new)
  show ?case
  proof (cases "startswith (c # cs) (b # bs)")
    case True
    have "set (drop (length bs) cs) \<subseteq> set cs" by (rule set_drop_subset)
    with 3(1) [OF True] True show ?thesis by auto
  next
    case False
    with 3(2) [OF False] show ?thesis by auto
  qed
qed

lemma notin_replace:
  "b \<notin> set s \<Longrightarrow> b \<notin> set new \<Longrightarrow> b \<notin> set (replace s old new)"
  using set_replace [of s old new] by auto

lemma replace_id: "\<not> contains s (b # bs) \<Longrightarrow> replace s (b # bs) new = s"
  by (induction s) auto

lemma replace_char_id: "b \<notin> set s \<Longrightarrow> replace s [b] new = s"
  by (induction s) simp_all

lemma replace_removes: "b \<notin> set new \<Longrightarrow> b \<notin> set (replace s [b] new)"
  by (induction s) simp_all

lemma length_replace_le:
  "length new \<le> length old \<Longrightarrow> length (replace s old new) \<le> length s"
proof (induction s old new rule: replace.induct)
  case (1 s new)
  then show ?case by simp
next
  case (2 b bs new)
  show ?case by simp
next
  case (3 c cs b bs new)
  show ?case
  proof (cases "startswith (c # cs) (b # bs)")
    case True
    then have "length (b # bs) \<le> length (c # cs)" by (rule startswith_length)
    with 3(1) [OF True 3(3)] 3(3) True show ?thesis by simp
  next
    case False
    with 3(2) [OF False 3(3)] show ?thesis by auto
  qed
qed

lemma length_replace_less:
  "contains s old \<Longrightarrow> length new < length old \<Longrightarrow>
   length (replace s old new) < length s"
proof (induction s old new rule: replace.induct)
  case (1 s new)
  then show ?case by simp
next
  case (2 b bs new)
  then show ?case by simp
next
  case (3 c cs b bs new)
  show ?case
  proof (cases "startswith (c # cs) (b # bs)")
    case True
    then have l: "length (b # bs) \<le> length (c # cs)" by (rule startswith_length)
    have "length (replace (drop (length (b # bs)) (c # cs)) (b # bs) new)
        \<le> length (drop (length (b # bs)) (c # cs))"
      using 3(4) by (intro length_replace_le) simp
    with l 3(4) True show ?thesis by simp
  next
    case False
    with 3(3) have "contains cs (b # bs)" by auto
    with 3(2) [OF False _ 3(4)] False show ?thesis by auto
  qed
qed

lemma keep_fun:
  "keep cat = (\<lambda>ch. \<not> startswith (cat ch) ''C'' \<or> ch \<in> {0x0A, 0x09})"
  by (rule ext) (simp only: keep_def)

lemma sanitize_passes:
  "sanitize cat txt = decode_entities (filter (keep cat) (replace_glyphs txt))"
  by (simp only: sanitize_def replace_glyphs_def keep_fun decode_entities_def Let_def)

lemma replace_glyphs_eq:
  "replace_glyphs s =
     replace (replace (replace (replace (replace (replace s
       [0x2013] [45]) [0x2014] [45]) [0x00A0] [32]) [0x202F] [32]) [0x00AD] [45]) [0x2060] []"
  by (simp add: replace_glyphs_def repl_def str_def)

lemma replace_glyphs_clean: "set (replace_glyphs s) \<inter> glyphs = {}"
proof -
  have "0x2013 \<notin> set (replace_glyphs s)" unfolding replace_glyphs_eq
    by (intro replace_removes notin_replace) simp_all
  moreover have "0x2014 \<notin> set (replace_glyphs s)" unfolding replace_glyphs_eq
    by (intro replace_removes notin_replace) simp_all
  moreover have "0x00A0 \<notin> set (replace_glyphs s)" unfolding replace_glyphs_eq
    by (intro replace_removes notin_replace) simp_all
  moreover have "0x202F \<notin> set (replace_glyphs s)" unfolding replace_glyphs_eq
    by (intro replace_removes notin_replace) simp_all
  moreover have "0x00AD \<notin> set (replace_glyphs s)" unfolding replace_glyphs_eq
    by (intro replace_removes notin_replace) simp_all
  moreover have "0x2060 \<notin> set (replace_glyphs s)" unfolding replace_glyphs_eq
    by (intro replace_removes notin_replace) simp_all
  ultimately show ?thesis by (simp add: glyphs_def)
qed

lemma replace_glyphs_id:
  assumes "set t \<inter> glyphs = {}"
  shows "replace_glyphs t = t"
proof -
  from assms have "0x2013 \<notin> set t" "0x2014 \<notin> set t" "0x00A0 \<notin> set t"
    "0x202F \<notin> set t" "0x00AD \<notin> set t" "0x2060 \<notin> set t"
    by (simp_all add: glyphs_def)
  then show ?thesis by (simp add: replace_glyphs_eq replace_char_id)
qed

lemma set_replace_glyphs: "set (replace_glyphs s) \<subseteq> set s \<union> {45, 32}"
proof -
  have r: "set (replace x old new) \<subseteq> A \<union> {45, 32}"
    if "set x \<subseteq> A \<union> {45, 32}" and "set new \<subseteq> {45, 32}" for x old new A
    using set_replace [of x old new] that by blast
  show ?thesis unfolding replace_glyphs_eq by (intro r) auto
qed

lemma set_decode_entities: "set (decode_entities s) \<subseteq> set s \<union> {32, 34, 38}"
proof -
  have r: "set (replace x old new) \<subseteq> A \<union> {32, 34, 38}"
    if "set x \<subseteq> A \<union> {32, 34, 38}" and "set new \<subseteq> {32, 34, 38}" for x old new A
    using set_replace [of x old new] that by blast
  show ?thesis unfolding decode_entities_def by (intro r) (auto simp: str_def)
qed

lemma has_entity_ampersand:
  assumes "has_entity x"
  shows "38 \<in> set x"
proof -
  from assms consider "contains x (str ''&nbsp;'')" | "contains x (str ''&quot;'')"
    | "contains x (str ''&amp;'')"
    unfolding has_entity_def by blast
  then show ?thesis
  proof cases
    case 1
    then have "set (str ''&nbsp;'') \<subseteq> set x" by (rule contains_set)
    moreover have "38 \<in> set (str ''&nbsp;'')" by (simp add: str_def)
    ultimately show ?thesis by blast
  next
    case 2
    then have "set (str ''&quot;'') \<subseteq> set x" by (rule contains_set)
    moreover have "38 \<in> set (str ''&quot;'')" by (simp add: str_def)
    ultimately show ?thesis by blast
  next
    case 3
    then have "set (str ''&amp;'') \<subseteq> set x" by (rule contains_set)
    moreover have "38 \<in> set (str ''&amp;'')" by (simp add: str_def)
    ultimately show ?thesis by blast
  qed
qed

lemma decode_entities_id:
  assumes "\<not> has_entity t"
  shows "decode_entities t = t"
proof -
  from assms have a: "\<not> contains t (str ''&nbsp;'')" and b: "\<not> contains t (str ''&quot;'')"
    and c: "\<not> contains t (str ''&amp;'')"
    by (simp_all add: has_entity_def)
  have 1: "replace t (str ''&nbsp;'') (str '' '') = t"
    using a by (simp add: str_def replace_id)
  have 2: "replace t (str ''&quot;'') [34] = t"
    using b by (simp add: str_def replace_id)
  have 3: "replace t (str ''&amp;'') (str ''&'') = t"
    using c by (simp add: str_def replace_id)
  show ?thesis unfolding decode_entities_def by (simp only: 1 2 3)
qed

lemma decode_entities_shorter:
  assumes "has_entity t"
  shows "length (decode_entities t) < length t"
proof -
  let ?a = "replace t (str ''&nbsp;'') (str '' '')"
  let ?b = "replace ?a (str ''&quot;'') [34]"
  let ?c = "replace ?b (str ''&amp;'') (str ''&'')"
  have la: "length ?a \<le> length t" by (rule length_replace_le) (simp add: str_def)
  have lb: "length ?b \<le> length ?a" by (rule length_replace_le) (simp add: str_def)
  have lc: "length ?c \<le> length ?b" by (rule length_replace_le) (simp add: str_def)
  have "length ?c < length t"
  proof (cases "contains t (str ''&nbsp;'')")
    case True
    then have "length ?a < length t" by (rule length_replace_less) (simp add: str_def)
    with lb lc show ?thesis by simp
  next
    case na: False
    then have a: "?a = t" by (simp add: str_def replace_id)
    show ?thesis
    proof (cases "contains t (str ''&quot;'')")
      case True
      then have "length (replace t (str ''&quot;'') [34]) < length t"
        by (rule length_replace_less) (simp add: str_def)
      with lc a show ?thesis by simp
    next
      case nb: False
      then have b: "replace t (str ''&quot;'') [34] = t"
        by (simp add: str_def replace_id)
      from assms na nb have "contains t (str ''&amp;'')" by (simp add: has_entity_def)
      then have "length (replace t (str ''&amp;'') (str ''&'')) < length t"
        by (rule length_replace_less) (simp add: str_def)
      with a b show ?thesis by simp
    qed
  qed
  then show ?thesis by (simp only: decode_entities_def)
qed

lemma sanitize_of_sanitized:
  assumes "\<not> startswith (cat 32) ''C''" and "\<not> startswith (cat 34) ''C''"
    and "\<not> startswith (cat 38) ''C''"
  shows "sanitize cat (sanitize cat s) = decode_entities (sanitize cat s)"
proof -
  let ?s2 = "filter (keep cat) (replace_glyphs s)"
  let ?t = "sanitize cat s"
  have t: "?t = decode_entities ?s2" by (rule sanitize_passes)
  have sub: "set ?t \<subseteq> set ?s2 \<union> {32, 34, 38}"
    unfolding t by (rule set_decode_entities)
  have k: "keep cat c" if "c \<in> set ?t" for c
  proof -
    from that sub have "c \<in> set ?s2 \<or> c \<in> {32, 34, 38}" by blast
    then show ?thesis using assms by (auto simp: keep_def)
  qed
  have g: "c \<notin> glyphs" if "c \<in> set ?t" for c
  proof -
    from that sub have "c \<in> set ?s2 \<or> c \<in> {32, 34, 38}" by blast
    then show ?thesis
    proof
      assume "c \<in> set ?s2"
      then have "c \<in> set (replace_glyphs s)" by simp
      with replace_glyphs_clean [of s] show ?thesis by blast
    next
      assume "c \<in> {32, 34, 38}"
      then show ?thesis by (auto simp: glyphs_def)
    qed
  qed
  from g have "set ?t \<inter> glyphs = {}" by blast
  then have 1: "replace_glyphs ?t = ?t" by (rule replace_glyphs_id)
  from k have 2: "filter (keep cat) ?t = ?t" by (simp add: filter_id_conv)
  have "sanitize cat ?t = decode_entities (filter (keep cat) (replace_glyphs ?t))"
    by (rule sanitize_passes)
  then show ?thesis by (simp only: 1 2)
qed

text \<open>
  Claim C4, amended: sanitizing a sanitized text returns it unchanged exactly when the
  sanitized text holds none of the entities \<^verbatim>\<open>&nbsp;\<close>, \<^verbatim>\<open>&quot;\<close> and \<^verbatim>\<open>&amp;\<close>; in
  particular the sanitizer is idempotent on every text without an ampersand. The Unicode
  table is any table in which the space, the double quote and the ampersand, which the
  decoding writes, are not of a category \<^verbatim>\<open>C\<close>.
\<close>

theorem sanitize_idempotent_iff:
  assumes "\<not> startswith (cat 32) ''C''" and "\<not> startswith (cat 34) ''C''"
    and "\<not> startswith (cat 38) ''C''"
  shows "(sanitize cat (sanitize cat s) = sanitize cat s \<longleftrightarrow> \<not> has_entity (sanitize cat s))
       \<and> (38 \<notin> set s \<longrightarrow> sanitize cat (sanitize cat s) = sanitize cat s)"
proof
  have e: "sanitize cat (sanitize cat s) = decode_entities (sanitize cat s)"
    using assms by (rule sanitize_of_sanitized)
  show iff: "sanitize cat (sanitize cat s) = sanitize cat s \<longleftrightarrow> \<not> has_entity (sanitize cat s)"
  proof
    assume i: "sanitize cat (sanitize cat s) = sanitize cat s"
    show "\<not> has_entity (sanitize cat s)"
    proof
      assume "has_entity (sanitize cat s)"
      then have "length (decode_entities (sanitize cat s)) < length (sanitize cat s)"
        by (rule decode_entities_shorter)
      with e i show False by simp
    qed
  next
    assume "\<not> has_entity (sanitize cat s)"
    then have "decode_entities (sanitize cat s) = sanitize cat s" by (rule decode_entities_id)
    with e show "sanitize cat (sanitize cat s) = sanitize cat s" by simp
  qed
  show "38 \<notin> set s \<longrightarrow> sanitize cat (sanitize cat s) = sanitize cat s"
  proof
    assume n: "38 \<notin> set s"
    have "set (replace_glyphs s) \<subseteq> set s \<union> {45, 32}" by (rule set_replace_glyphs)
    with n have "38 \<notin> set (filter (keep cat) (replace_glyphs s))" by auto
    then have ne: "\<not> has_entity (filter (keep cat) (replace_glyphs s))"
      using has_entity_ampersand by blast
    then have "sanitize cat s = filter (keep cat) (replace_glyphs s)"
      unfolding sanitize_passes by (rule decode_entities_id)
    with ne have "\<not> has_entity (sanitize cat s)" by simp
    with iff show "sanitize cat (sanitize cat s) = sanitize cat s" by blast
  qed
qed

text \<open>
  Claim C4, as the specification states it: the sanitizer is idempotent. It is not: the
  entities are decoded once, so \<^verbatim>\<open>&amp;amp;\<close> becomes \<^verbatim>\<open>&amp;\<close>, and sanitized again
  that becomes \<^verbatim>\<open>&\<close>.
\<close>

theorem sanitize_twice_counterexample:
  "sanitize category_ascii (sanitize category_ascii (str ''&amp;amp;''))
     \<noteq> sanitize category_ascii (str ''&amp;amp;'')"
  by (simp add: eval_defs)

theorem sanitize_idempotent_iff_witness:
  "\<not> startswith (category_ascii 32) ''C'' \<and> \<not> startswith (category_ascii 34) ''C''
   \<and> \<not> startswith (category_ascii 38) ''C''
   \<and> \<not> has_entity (sanitize category_ascii (str ''a&nbsp;b&lt;''))
   \<and> sanitize category_ascii (str ''a&nbsp;b&lt;'') = str ''a b&lt;''
   \<and> sanitize category_ascii (str ''a b&lt;'') = str ''a b&lt;''
   \<and> 38 \<notin> set (str ''x - y'')
   \<and> sanitize category_ascii (sanitize category_ascii (str ''x - y''))
       = sanitize category_ascii (str ''x - y'')"
proof -
  have c: "\<not> startswith (category_ascii 32) ''C''" "\<not> startswith (category_ascii 34) ''C''"
    "\<not> startswith (category_ascii 38) ''C''"
    by (simp_all add: category_ascii_def)
  have v: "sanitize category_ascii (str ''a&nbsp;b&lt;'') = str ''a b&lt;''"
    by (simp add: eval_defs)
  have h: "\<not> has_entity (sanitize category_ascii (str ''a&nbsp;b&lt;''))"
    unfolding v by (simp add: has_entity_def str_def)
  have n: "38 \<notin> set (str ''x - y'')" by (simp add: str_def)
  note t1 = sanitize_idempotent_iff [OF c, of "str ''a&nbsp;b&lt;''"]
  note t2 = sanitize_idempotent_iff [OF c, of "str ''x - y''"]
  from t1 h have "sanitize category_ascii (sanitize category_ascii (str ''a&nbsp;b&lt;''))
      = sanitize category_ascii (str ''a&nbsp;b&lt;'')" by blast
  then have i: "sanitize category_ascii (str ''a b&lt;'') = str ''a b&lt;''"
    unfolding v .
  from t2 n have "sanitize category_ascii (sanitize category_ascii (str ''x - y''))
       = sanitize category_ascii (str ''x - y'')" by blast
  with c v h i n show ?thesis by blast
qed

section \<open>Headings\<close>




lemma not_isspace_hash [simp]: "\<not> isspace 35"
  by (simp add: isspace_def)













end
